theory Spec2Isabelle
  imports Main
begin

section \<open>Data model of \<open>CompositeWeakMap\<close>\<close>

text \<open>
  Objects are compared by identity only, so a partial key, a composite key, a
  \<open>FinalizationRegistry\<close> and an unregister token are each modelled by the natural number
  that names the object. \<open>nextObject\<close> is the allocator used for every \<open>{}\<close> and every
  \<open>new FinalizationRegistry\<close> the map creates.
\<close>

type_synonym PartialKey = nat
type_synonym CompositeKey = nat
type_synonym PartialKeyPos = string

text \<open>A value of type \<open>Value | undefined\<close>: what \<open>get\<close> returns and what \<open>resultMap\<close> stores.\<close>

datatype 'v js = Undefined | Val 'v

text \<open>The three \<open>throw new Error(...)\<close> of the source, in the order they appear.\<close>

datatype error =
    AtLeastOneKeyRequired    \<comment> \<open>'At least one key is required.'\<close>
  | EmptyMinimum             \<comment> \<open>'Cannot get the minimum of an empty array.'\<close>
  | ValueNotInArray          \<comment> \<open>'Value to extract not in array.'\<close>

record FinalizationData =
  partialKeyRef :: PartialKey         \<comment> \<open>the referent of the \<open>WeakRef\<close>\<close>
  partialKeyPos :: PartialKeyPos
  unregisterToken :: nat

text \<open>One \<open>register(target, heldValue, token)\<close> call that has neither fired nor been unregistered.\<close>

record Registration =
  target :: PartialKey
  heldValue :: FinalizationData
  token :: nat

text \<open>
  A registry object: the \<open>compositeKey\<close> its callback closes over, and its pending
  registrations in the order they were made.
\<close>

record FinalizationRegistry =
  closedCompositeKey :: CompositeKey
  registrations :: "Registration list"

text \<open>
  The three private fields of the class, then the part of the host the class talks to: the
  registry objects by identity (\<open>heap\<close>), the partial keys the collector has reclaimed, and the
  allocator. A JavaScript \<open>Set\<close> iterates in insertion order, so it is a list without
  duplicates; a \<open>Map\<close> or \<open>WeakMap\<close> is a partial function.
\<close>

record 'v CompositeWeakMap =
  compositeKeyMap :: "PartialKey \<rightharpoonup> (PartialKeyPos \<rightharpoonup> CompositeKey list)"
  resultMap :: "CompositeKey \<rightharpoonup> 'v js"
  registries :: "nat list"
  heap :: "nat \<rightharpoonup> FinalizationRegistry"
  reclaimed :: "PartialKey set"
  nextObject :: nat

definition newCompositeWeakMap :: "'v CompositeWeakMap" where
  "newCompositeWeakMap =
     \<lparr>compositeKeyMap = Map.empty, resultMap = Map.empty, registries = [],
      heap = Map.empty, reclaimed = {}, nextObject = 0\<rparr>"

subsection \<open>\<open>Set.prototype.add\<close> and \<open>Set.prototype.delete\<close>\<close>

definition Set_add :: "'a \<Rightarrow> 'a list \<Rightarrow> 'a list" where
  "Set_add x xs = (if x \<in> set xs then xs else xs @ [x])"

definition Set_delete :: "'a \<Rightarrow> 'a list \<Rightarrow> 'a list" where
  "Set_delete x xs = removeAll x xs"

subsection \<open>Helper functions of the module\<close>

text \<open>\<open>`${n}`\<close> for an array index or length: the decimal digits.\<close>

fun numberToString :: "nat \<Rightarrow> string" where
  "numberToString n =
     (if n < 10 then [''0123456789'' ! n]
      else numberToString (n div 10) @ [''0123456789'' ! (n mod 10)])"

declare numberToString.simps [simp del]

definition createPartialKeyPosition :: "nat \<Rightarrow> nat \<Rightarrow> PartialKeyPos" where
  "createPartialKeyPosition index size' =
     numberToString (index + 1) @ ''/'' @ numberToString size'"

definition assertKeysValid :: "PartialKey list \<Rightarrow> error + unit" where
  "assertKeysValid keys = (if length keys = 0 then Inl AtLeastOneKeyRequired else Inr ())"

text \<open>The \<open>for (const value of rest)\<close> loop of \<open>minimum\<close>, with its two local variables.\<close>

fun minimum_loop :: "'a \<Rightarrow> nat \<Rightarrow> 'a list \<Rightarrow> ('a \<Rightarrow> nat) \<Rightarrow> 'a" where
  "minimum_loop minimum minimumCount [] selector = minimum"
| "minimum_loop minimum minimumCount (v # rest) selector =
     (let count = selector v in
      if count < minimumCount then minimum_loop v count rest selector
      else minimum_loop minimum minimumCount rest selector)"

fun minimum :: "'a list \<Rightarrow> ('a \<Rightarrow> nat) \<Rightarrow> error + 'a" where
  "minimum [] selector = Inl EmptyMinimum"
| "minimum (first # rest) selector = Inr (minimum_loop first (selector first) rest selector)"

text \<open>\<open>Array.prototype.findIndex\<close>, with \<open>None\<close> for \<open>-1\<close>.\<close>

fun findIndex :: "('a \<Rightarrow> bool) \<Rightarrow> 'a list \<Rightarrow> nat option" where
  "findIndex p [] = None"
| "findIndex p (x # xs) =
     (if p x then Some 0 else (case findIndex p xs of None \<Rightarrow> None | Some i \<Rightarrow> Some (i + 1)))"

text \<open>
  \<open>array.splice(start, deleteCount)\<close> changes \<open>array\<close> in place and returns the elements it
  deleted: the pair is (returned array, \<open>array\<close> afterwards).
\<close>

definition splice :: "'a list \<Rightarrow> nat \<Rightarrow> nat \<Rightarrow> 'a list \<times> 'a list" where
  "splice array start deleteCount =
     (take deleteCount (drop start array),
      take start array @ drop (start + deleteCount) array)"

text \<open>
  \<open>remove\<close> returns what \<open>splice\<close> returns. The source compares with \<open>===\<close>, the identity of
  the \<open>Set\<close> objects in the array; here two candidate sets are compared by their contents. The
  element spliced out has the contents of \<open>value\<close> under either comparison, and the array is
  not read again by the caller.
\<close>

definition remove :: "'a list \<Rightarrow> 'a \<Rightarrow> error + 'a list" where
  "remove array v =
     (case findIndex (\<lambda>x. x = v) array of
        None \<Rightarrow> Inl ValueNotInArray
      | Some index \<Rightarrow> Inr (fst (splice array index 1)))"

subsection \<open>Private methods\<close>

definition getCompositeKey ::
  "'v CompositeWeakMap \<Rightarrow> PartialKey list \<Rightarrow> error + CompositeKey option" where
  "getCompositeKey s partialKeys =
     (let compositeKeyHandles =
            map (\<lambda>key. case compositeKeyMap s key of Some m \<Rightarrow> m | None \<Rightarrow> Map.empty)
              partialKeys;
          partialKeysCandidates =
            map (\<lambda>(keyIndex, partialKeyPosMap).
                   case partialKeyPosMap
                          (createPartialKeyPosition keyIndex (length partialKeys)) of
                     Some cs \<Rightarrow> cs
                   | None \<Rightarrow> [])
              (enumerate 0 compositeKeyHandles)
      in case minimum partialKeysCandidates length of
           Inl e \<Rightarrow> Inl e
         | Inr fewestPartialKeyCandidates \<Rightarrow>
             (case remove partialKeysCandidates fewestPartialKeyCandidates of
                Inl e \<Rightarrow> Inl e
              | Inr remainingPartialKeysCandidates \<Rightarrow>
                  Inr (find (\<lambda>candidateCompositeKey.
                               list_all (\<lambda>otherPartialKeyCandidates.
                                           candidateCompositeKey \<in> set otherPartialKeyCandidates)
                                 remainingPartialKeysCandidates)
                         fewestPartialKeyCandidates)))"

text \<open>Returns the key and the map, whose allocator has moved when \<open>{}\<close> was created.\<close>

definition getOrCreateCompositeKey ::
  "'v CompositeWeakMap \<Rightarrow> PartialKey list \<Rightarrow> error + (CompositeKey \<times> 'v CompositeWeakMap)" where
  "getOrCreateCompositeKey s partialKeys =
     (case getCompositeKey s partialKeys of
        Inl e \<Rightarrow> Inl e
      | Inr (Some existingCompositeKey) \<Rightarrow> Inr (existingCompositeKey, s)
      | Inr None \<Rightarrow> Inr (nextObject s, s\<lparr>nextObject := nextObject s + 1\<rparr>))"

text \<open>\<open>FinalizationRegistry.prototype.register\<close> and \<open>unregister\<close> on the registry \<open>rid\<close>.\<close>

definition register ::
  "nat \<Rightarrow> PartialKey \<Rightarrow> FinalizationData \<Rightarrow> nat \<Rightarrow> 'v CompositeWeakMap \<Rightarrow> 'v CompositeWeakMap" where
  "register rid tgt held tok s =
     (case heap s rid of
        None \<Rightarrow> s
      | Some r \<Rightarrow>
          s\<lparr>heap := (heap s)(rid \<mapsto>
               r\<lparr>registrations := registrations r @
                    [\<lparr>target = tgt, heldValue = held, token = tok\<rparr>]\<rparr>)\<rparr>)"

definition unregister :: "nat \<Rightarrow> nat \<Rightarrow> 'v CompositeWeakMap \<Rightarrow> 'v CompositeWeakMap" where
  "unregister rid tok s =
     (case heap s rid of
        None \<Rightarrow> s
      | Some r \<Rightarrow>
          s\<lparr>heap := (heap s)(rid \<mapsto>
               r\<lparr>registrations := filter (\<lambda>c. token c \<noteq> tok) (registrations r)\<rparr>)\<rparr>)"

text \<open>One iteration of \<open>for (const [ index, partialKey ] of partialKeys.entries())\<close>.\<close>

definition setPartialKey ::
  "nat \<Rightarrow> CompositeKey \<Rightarrow> PartialKey list \<Rightarrow> 'v CompositeWeakMap \<Rightarrow> nat \<times> PartialKey \<Rightarrow>
   'v CompositeWeakMap" where
  "setPartialKey rid compositeKey partialKeys s = (\<lambda>(index, partialKey).
     let partialKeyPosMap =
           (case compositeKeyMap s partialKey of Some m \<Rightarrow> m | None \<Rightarrow> Map.empty);
         pos = createPartialKeyPosition index (length partialKeys);
         compositeKeys = (case partialKeyPosMap pos of Some cs \<Rightarrow> cs | None \<Rightarrow> []);
         s1 = s\<lparr>compositeKeyMap := (compositeKeyMap s)(partialKey \<mapsto>
                  partialKeyPosMap(pos \<mapsto> Set_add compositeKey compositeKeys))\<rparr>;
         otherPartialKeys = filter (\<lambda>otherPartialKey. partialKey \<noteq> otherPartialKey) partialKeys;
         tok = nextObject s1;
         s2 = s1\<lparr>nextObject := nextObject s1 + 1\<rparr>
     in foldl (\<lambda>s' otherPartialKey.
                 register rid otherPartialKey
                   \<lparr>partialKeyRef = partialKey, partialKeyPos = pos, unregisterToken = tok\<rparr>
                   tok s')
          s2 otherPartialKeys)"

definition setCompositeKey ::
  "'v CompositeWeakMap \<Rightarrow> PartialKey list \<Rightarrow> CompositeKey \<Rightarrow> 'v CompositeWeakMap" where
  "setCompositeKey s partialKeys compositeKey =
     (let rid = nextObject s;
          s1 = s\<lparr>heap := (heap s)(rid \<mapsto>
                    \<lparr>closedCompositeKey = compositeKey, registrations = []\<rparr>),
                 registries := Set_add rid (registries s),
                 nextObject := nextObject s + 1\<rparr>
      in foldl (setPartialKey rid compositeKey partialKeys) s1 (enumerate 0 partialKeys))"

text \<open>
  The callback given to \<open>new FinalizationRegistry\<close>, for the registry \<open>rid\<close>: the registry
  object supplies the \<open>compositeKey\<close> of the closure. \<open>deref\<close> of a \<open>WeakRef\<close> is \<open>undefined\<close>
  once the referent has been reclaimed.
\<close>

definition deref :: "'v CompositeWeakMap \<Rightarrow> PartialKey \<Rightarrow> PartialKey option" where
  "deref s k = (if k \<in> reclaimed s then None else Some k)"

definition cleanupCallback ::
  "nat \<Rightarrow> FinalizationData \<Rightarrow> 'v CompositeWeakMap \<Rightarrow> 'v CompositeWeakMap" where
  "cleanupCallback rid held s =
     (case heap s rid of
        None \<Rightarrow> s
      | Some r \<Rightarrow>
     (case deref s (partialKeyRef held) of
        None \<Rightarrow> s
      | Some partialKey \<Rightarrow>
     (case compositeKeyMap s partialKey of
        None \<Rightarrow> s
      | Some partialKeyPosMap \<Rightarrow>
     (case partialKeyPosMap (partialKeyPos held) of
        None \<Rightarrow> s
      | Some compositeKeys \<Rightarrow>
          (let s1 = s\<lparr>compositeKeyMap := (compositeKeyMap s)(partialKey \<mapsto>
                        partialKeyPosMap(partialKeyPos held \<mapsto>
                          Set_delete (closedCompositeKey r) compositeKeys))\<rparr>;
               s2 = unregister rid (unregisterToken held) s1
           in s2\<lparr>registries := Set_delete rid (registries s2)\<rparr>)))))"

subsection \<open>The host: garbage collection and finalization\<close>

text \<open>
  The collector reclaims a partial key: its \<open>WeakMap\<close> entry goes with it. Later, and one at a
  time, the host takes a pending registration whose target was reclaimed out of its registry and
  calls the registry's callback with the held value.
\<close>

definition reclaim :: "PartialKey \<Rightarrow> 'v CompositeWeakMap \<Rightarrow> 'v CompositeWeakMap" where
  "reclaim k s = s\<lparr>compositeKeyMap := (compositeKeyMap s)(k := None),
                   reclaimed := insert k (reclaimed s)\<rparr>"

definition finalize :: "nat \<Rightarrow> Registration \<Rightarrow> 'v CompositeWeakMap \<Rightarrow> 'v CompositeWeakMap" where
  "finalize rid c s =
     (case heap s rid of
        None \<Rightarrow> s
      | Some r \<Rightarrow>
          if c \<in> set (registrations r) \<and> target c \<in> reclaimed s
          then cleanupCallback rid (heldValue c)
                 (s\<lparr>heap := (heap s)(rid \<mapsto> r\<lparr>registrations := remove1 c (registrations r)\<rparr>)\<rparr>)
          else s)"

subsection \<open>Public methods\<close>

text \<open>
  Each method returns what the call returns or throws, and the map after the call.
\<close>

definition get ::
  "'v CompositeWeakMap \<Rightarrow> PartialKey list \<Rightarrow> (error + 'v js) \<times> 'v CompositeWeakMap" where
  "get s partialKeys =
     (case assertKeysValid partialKeys of
        Inl e \<Rightarrow> (Inl e, s)
      | Inr _ \<Rightarrow>
          (case getCompositeKey s partialKeys of
             Inl e \<Rightarrow> (Inl e, s)
           | Inr None \<Rightarrow> (Inr Undefined, s)
           | Inr (Some compositeKey) \<Rightarrow>
               (Inr (case resultMap s compositeKey of None \<Rightarrow> Undefined | Some v \<Rightarrow> v), s)))"

definition set_cwm ::
  "'v CompositeWeakMap \<Rightarrow> PartialKey list \<Rightarrow> 'v js \<Rightarrow> (error + unit) \<times> 'v CompositeWeakMap" where
  "set_cwm s partialKeys v =
     (case assertKeysValid partialKeys of
        Inl e \<Rightarrow> (Inl e, s)
      | Inr _ \<Rightarrow>
          (case getOrCreateCompositeKey s partialKeys of
             Inl e \<Rightarrow> (Inl e, s)
           | Inr (compositeKey, s1) \<Rightarrow>
               (let s2 = setCompositeKey s1 partialKeys compositeKey
                in (Inr (), s2\<lparr>resultMap := (resultMap s2)(compositeKey \<mapsto> v)\<rparr>))))"

definition has ::
  "'v CompositeWeakMap \<Rightarrow> PartialKey list \<Rightarrow> (error + bool) \<times> 'v CompositeWeakMap" where
  "has s partialKeys =
     (case assertKeysValid partialKeys of
        Inl e \<Rightarrow> (Inl e, s)
      | Inr _ \<Rightarrow>
          (case getCompositeKey s partialKeys of
             Inl e \<Rightarrow> (Inl e, s)
           | Inr None \<Rightarrow> (Inr False, s)
           | Inr (Some compositeKey) \<Rightarrow> (Inr (resultMap s compositeKey \<noteq> None), s)))"

definition delete ::
  "'v CompositeWeakMap \<Rightarrow> PartialKey list \<Rightarrow> (error + bool) \<times> 'v CompositeWeakMap" where
  "delete s partialKeys =
     (case assertKeysValid partialKeys of
        Inl e \<Rightarrow> (Inl e, s)
      | Inr _ \<Rightarrow>
          (case getCompositeKey s partialKeys of
             Inl e \<Rightarrow> (Inl e, s)
           | Inr None \<Rightarrow> (Inr False, s)
           | Inr (Some compositeKey) \<Rightarrow>
               (Inr (resultMap s compositeKey \<noteq> None),
                s\<lparr>resultMap := (resultMap s)(compositeKey := None)\<rparr>)))"

section \<open>Notions used to state the properties\<close>

text \<open>
  The candidate set of one partial key at one position, empty when the key or the position is
  not registered, and the candidate sets \<open>getCompositeKey\<close> fetches for a key array, in order.
\<close>

definition lookupCandidates ::
  "'v CompositeWeakMap \<Rightarrow> PartialKey \<Rightarrow> PartialKeyPos \<Rightarrow> CompositeKey list" where
  "lookupCandidates s key pos =
     (case compositeKeyMap s key of
        None \<Rightarrow> []
      | Some m \<Rightarrow> (case m pos of None \<Rightarrow> [] | Some cs \<Rightarrow> cs))"

definition candidateSets :: "'v CompositeWeakMap \<Rightarrow> PartialKey list \<Rightarrow> CompositeKey list list" where
  "candidateSets s partialKeys =
     map (\<lambda>(i, key). lookupCandidates s key (createPartialKeyPosition i (length partialKeys)))
       (enumerate 0 partialKeys)"

text \<open>What \<open>minimum\<close> returns for a non-empty array of candidate sets, selected by size.\<close>

definition fewest :: "'a list list \<Rightarrow> 'a list" where
  "fewest sets = minimum_loop (hd sets) (length (hd sets)) (tl sets) length"

text \<open>
  Resolution in the words of the specification, not of the source: the pivot is the smallest
  fetched set, the first one among equals, and the answer is the first handle of the pivot
  that is a member of every fetched set; none, when no handle of the pivot is.
\<close>

definition resolveSpec :: "'v CompositeWeakMap \<Rightarrow> PartialKey list \<Rightarrow> CompositeKey option" where
  "resolveSpec s partialKeys =
     (let sets = candidateSets s partialKeys
      in case find (\<lambda>S. list_all (\<lambda>S'. length S \<le> length S') sets) sets of
           None \<Rightarrow> None
         | Some pivot \<Rightarrow> find (\<lambda>ck. list_all (\<lambda>S. ck \<in> set S) sets) pivot)"

text \<open>
  The registrations one iteration of the loop of \<open>setCompositeKey\<close> makes for the entry
  \<open>(index, partialKey)\<close> with the token \<open>tok\<close>, and those of a whole call whose registry is
  \<open>rid\<close>: the tokens are the objects allocated after the registry, one per entry.
\<close>

definition watchesFor :: "PartialKey list \<Rightarrow> nat \<Rightarrow> nat \<times> PartialKey \<Rightarrow> Registration list" where
  "watchesFor partialKeys tok = (\<lambda>(index, partialKey).
     map (\<lambda>otherPartialKey.
            \<lparr>target = otherPartialKey,
             heldValue = \<lparr>partialKeyRef = partialKey,
                          partialKeyPos = createPartialKeyPosition index (length partialKeys),
                          unregisterToken = tok\<rparr>,
             token = tok\<rparr>)
       (filter (\<lambda>otherPartialKey. partialKey \<noteq> otherPartialKey) partialKeys))"

definition expectedWatches :: "nat \<Rightarrow> PartialKey list \<Rightarrow> Registration list" where
  "expectedWatches rid partialKeys =
     concat (map (\<lambda>(tok, entry). watchesFor partialKeys tok entry)
               (enumerate (rid + 1) (enumerate 0 partialKeys)))"

text \<open>
  The composite key \<open>getOrCreateCompositeKey\<close> hands to \<open>set\<close>, and the identity of the
  registry that \<open>setCompositeKey\<close> then creates: the next free object, after the new
  composite key when one was created.
\<close>

definition setKey :: "'v CompositeWeakMap \<Rightarrow> PartialKey list \<Rightarrow> CompositeKey" where
  "setKey s partialKeys =
     (case getCompositeKey s partialKeys of Inr (Some ck) \<Rightarrow> ck | _ \<Rightarrow> nextObject s)"

definition setRegistry :: "'v CompositeWeakMap \<Rightarrow> PartialKey list \<Rightarrow> nat" where
  "setRegistry s partialKeys =
     (case getCompositeKey s partialKeys of
        Inr (Some ck) \<Rightarrow> nextObject s
      | _ \<Rightarrow> nextObject s + 1)"

text \<open>
  The registration made for the partial key at index \<open>i\<close> on the other key \<open>k'\<close> by the call
  whose registry is \<open>rid\<close>: the held value names the key at \<open>i\<close> and its position, and the token
  is the object created in iteration \<open>i\<close> of the loop.
\<close>

definition watch :: "nat \<Rightarrow> PartialKey list \<Rightarrow> nat \<Rightarrow> PartialKey \<Rightarrow> Registration" where
  "watch rid partialKeys i k' =
     \<lparr>target = k',
      heldValue = \<lparr>partialKeyRef = partialKeys ! i,
                   partialKeyPos = createPartialKeyPosition i (length partialKeys),
                   unregisterToken = rid + 1 + i\<rparr>,
      token = rid + 1 + i\<rparr>"

text \<open>
  Whether the callback, called with the held value \<open>held\<close>, gets past its three early returns:
  the weak reference still has its referent, the referent has an entry in \<open>compositeKeyMap\<close>,
  and that entry has a candidate set at the held position. And whether the host can deliver
  the registration \<open>c\<close> of the registry \<open>rid\<close>: it is pending and its target was reclaimed.
\<close>

definition callbackCompletes :: "'v CompositeWeakMap \<Rightarrow> FinalizationData \<Rightarrow> bool" where
  "callbackCompletes s held =
     (case deref s (partialKeyRef held) of
        None \<Rightarrow> False
      | Some partialKey \<Rightarrow>
          (case compositeKeyMap s partialKey of
             None \<Rightarrow> False
           | Some partialKeyPosMap \<Rightarrow> partialKeyPosMap (partialKeyPos held) \<noteq> None))"

definition delivers :: "'v CompositeWeakMap \<Rightarrow> nat \<Rightarrow> Registration \<Rightarrow> bool" where
  "delivers s rid c =
     (case heap s rid of
        None \<Rightarrow> False
      | Some r \<Rightarrow> c \<in> set (registrations r) \<and> target c \<in> reclaimed s)"

section \<open>Example maps\<close>

text \<open>
  \<open>map.set([k10, k11], 1)\<close> on a new map, then \<open>map.set([k12, k13], 2)\<close>; and a new map
  after \<open>map.set([k10, k11, k12], 1)\<close>. The partial keys are the objects 10 to 13.
\<close>

definition oneBinding :: "nat CompositeWeakMap" where
  "oneBinding = snd (set_cwm newCompositeWeakMap [10, 11] (Val 1))"

definition twoBindings :: "nat CompositeWeakMap" where
  "twoBindings = snd (set_cwm oneBinding [12, 13] (Val 2))"

definition threeKeys :: "nat CompositeWeakMap" where
  "threeKeys = snd (set_cwm newCompositeWeakMap [10, 11, 12] (Val 1))"

text \<open>
  The collector reclaims key 12 of \<open>threeKeys\<close> and the host delivers the registration on 12
  that holds key 10.
\<close>

definition firstWatch :: Registration where
  "firstWatch =
     \<lparr>target = 12,
      heldValue = \<lparr>partialKeyRef = 10, partialKeyPos = ''1/3'', unregisterToken = 2\<rparr>,
      token = 2\<rparr>"

definition afterFirstCallback :: "nat CompositeWeakMap" where
  "afterFirstCallback = finalize 1 firstWatch (reclaim 12 threeKeys)"

section \<open>The pivot chosen by \<open>minimum\<close>\<close>

lemma minimum_loop_least:
  "\<forall>x\<in>set rest. sel m \<le> sel x \<Longrightarrow> minimum_loop m (sel m) rest sel = m"
  by (induction rest) (auto simp: Let_def)

lemma minimum_loop_later:
  "\<lbrakk>\<forall>x\<in>set pre. sel p < sel x; \<forall>x\<in>set post. sel p \<le> sel x; sel p < sel m\<rbrakk>
   \<Longrightarrow> minimum_loop m (sel m) (pre @ p # post) sel = p"
proof (induction pre arbitrary: m)
  case Nil
  then show ?case by (simp add: minimum_loop_least)
next
  case (Cons x pre)
  then show ?case by (simp add: Let_def)
qed

lemma minimum_loop_first_least:
  assumes "m # rest = pre @ p # post"
    and "\<forall>x\<in>set pre. sel p < sel x" and "\<forall>x\<in>set post. sel p \<le> sel x"
  shows "minimum_loop m (sel m) rest sel = p"
proof (cases pre)
  case Nil
  with assms show ?thesis by (simp add: minimum_loop_least)
next
  case (Cons a pre')
  with assms have "a = m" "rest = pre' @ p # post" by simp_all
  with assms Cons show ?thesis by (simp add: minimum_loop_later)
qed

lemma minimum_loop_split:
  "\<exists>pre post. m # rest = pre @ minimum_loop m (sel m) rest sel # post
     \<and> (\<forall>x\<in>set pre. sel (minimum_loop m (sel m) rest sel) < sel x)
     \<and> (\<forall>x\<in>set post. sel (minimum_loop m (sel m) rest sel) \<le> sel x)"
proof (induction rest arbitrary: m)
  case Nil
  show ?case by (rule exI [of _ "[]"], rule exI [of _ "[]"]) simp
next
  case (Cons v rest)
  show ?case
  proof (cases "sel v < sel m")
    case True
    define r where "r = minimum_loop v (sel v) rest sel"
    have eq: "minimum_loop m (sel m) (v # rest) sel = r"
      using True by (simp add: Let_def r_def)
    from Cons.IH [of v] obtain pre post where
      d: "v # rest = pre @ r # post" "\<forall>x\<in>set pre. sel r < sel x"
         "\<forall>x\<in>set post. sel r \<le> sel x"
      unfolding r_def by blast
    have "sel r \<le> sel v"
    proof (cases pre)
      case Nil
      with d(1) show ?thesis by simp
    next
      case (Cons a pre')
      with d(1,2) show ?thesis by simp
    qed
    with True have lt: "sel r < sel m" by simp
    show ?thesis unfolding eq
      by (rule exI [of _ "m # pre"], rule exI [of _ post]) (simp add: d lt)
  next
    case False
    define r where "r = minimum_loop m (sel m) rest sel"
    have eq: "minimum_loop m (sel m) (v # rest) sel = r"
      using False by (simp add: Let_def r_def)
    from Cons.IH [of m] obtain pre post where
      d: "m # rest = pre @ r # post" "\<forall>x\<in>set pre. sel r < sel x"
         "\<forall>x\<in>set post. sel r \<le> sel x"
      unfolding r_def by blast
    show ?thesis
    proof (cases pre)
      case Nil
      with d(1) have "r = m" "rest = post" by simp_all
      with d(3) False show ?thesis unfolding eq
        by (intro exI [of _ "[]"] exI [of _ "v # post"]) simp
    next
      case (Cons a pre')
      with d(1) have "a = m" "rest = pre' @ r # post" by simp_all
      with d(2,3) Cons False show ?thesis unfolding eq
        by (intro exI [of _ "m # v # pre'"] exI [of _ post]) simp
    qed
  qed
qed

lemma fewest_split:
  assumes "sets \<noteq> []"
  shows "\<exists>pre post. sets = pre @ fewest sets # post
     \<and> (\<forall>x\<in>set pre. length (fewest sets) < length x)
     \<and> (\<forall>x\<in>set post. length (fewest sets) \<le> length x)"
proof -
  from assms obtain m rest where "sets = m # rest" by (cases sets) auto
  then show ?thesis using minimum_loop_split [of m rest length] by (simp add: fewest_def)
qed

lemma fewest_first_least:
  assumes "sets = pre @ p # post"
    and "\<forall>x\<in>set pre. length p < length x" and "\<forall>x\<in>set post. length p \<le> length x"
  shows "fewest sets = p"
proof -
  from assms(1) have "sets \<noteq> []" by simp
  then obtain m rest where mr: "sets = m # rest" by (cases sets) auto
  with assms have "minimum_loop m (length m) rest length = p"
    by (intro minimum_loop_first_least [where pre = pre and post = post]) simp_all
  with mr show ?thesis by (simp add: fewest_def)
qed

lemma fewest_mem: "sets \<noteq> [] \<Longrightarrow> fewest sets \<in> set sets"
  using fewest_split [of sets] by (metis in_set_conv_decomp)

lemma fewest_le: "x \<in> set sets \<Longrightarrow> length (fewest sets) \<le> length x"
proof -
  assume x: "x \<in> set sets"
  then have "sets \<noteq> []" by auto
  from fewest_split [OF this] obtain pre post where
    "sets = pre @ fewest sets # post" "\<forall>x\<in>set pre. length (fewest sets) < length x"
    "\<forall>x\<in>set post. length (fewest sets) \<le> length x" by blast
  with x show ?thesis by (metis Un_iff less_imp_le order_refl set_ConsD set_append)
qed

lemma findIndex_mem:
  "v \<in> set xs \<Longrightarrow> \<exists>i. findIndex (\<lambda>x. x = v) xs = Some i \<and> i < length xs \<and> xs ! i = v"
  by (induction xs) auto

lemma remove_mem: "v \<in> set xs \<Longrightarrow> remove xs v = Inr [v]"
proof -
  assume "v \<in> set xs"
  from findIndex_mem [OF this] obtain i where
    i: "findIndex (\<lambda>x. x = v) xs = Some i" "i < length xs" "xs ! i = v" by blast
  then have "take 1 (drop i xs) = [v]"
    by (metis Cons_nth_drop_Suc One_nat_def take0 take_Suc_Cons)
  with i show ?thesis by (simp add: remove_def splice_def)
qed

lemma find_in_itself:
  "find (\<lambda>c. c \<in> set xs) xs = (case xs of [] \<Rightarrow> None | x # _ \<Rightarrow> Some x)"
  by (cases xs) simp_all

lemma getCompositeKey_candidates:
  "map (\<lambda>(keyIndex, partialKeyPosMap).
          case partialKeyPosMap (createPartialKeyPosition keyIndex n) of
            Some cs \<Rightarrow> cs | None \<Rightarrow> [])
     (enumerate k (map (\<lambda>key. case compositeKeyMap s key of Some m \<Rightarrow> m | None \<Rightarrow> Map.empty) ks))
   = map (\<lambda>(i, key). lookupCandidates s key (createPartialKeyPosition i n)) (enumerate k ks)"
  by (induction ks arbitrary: k) (auto simp: lookupCandidates_def split: option.splits)

lemma candidateSets_nonempty: "partialKeys \<noteq> [] \<Longrightarrow> candidateSets s partialKeys \<noteq> []"
  by (cases partialKeys) (simp_all add: candidateSets_def)

lemma getCompositeKey_pivot:
  assumes "partialKeys \<noteq> []"
  shows "getCompositeKey s partialKeys =
           Inr (case fewest (candidateSets s partialKeys) of [] \<Rightarrow> None | ck # _ \<Rightarrow> Some ck)"
proof -
  let ?cs = "candidateSets s partialKeys"
  from assms have ne: "?cs \<noteq> []" by (rule candidateSets_nonempty)
  then obtain m rest where mr: "?cs = m # rest" by (cases ?cs) auto
  then have min: "minimum ?cs length = Inr (fewest ?cs)" by (simp add: fewest_def)
  have rem: "remove ?cs (fewest ?cs) = Inr [fewest ?cs]"
    using fewest_mem [OF ne] by (rule remove_mem)
  show ?thesis
    unfolding getCompositeKey_def Let_def getCompositeKey_candidates
    unfolding candidateSets_def [symmetric]
    by (simp add: min rem find_in_itself)
qed

lemma Set_add_idem: "Set_add x (Set_add x xs) = Set_add x xs"
  by (simp add: Set_add_def)

lemma Set_add_mem: "x \<in> set (Set_add x xs)"
  by (simp add: Set_add_def)

lemma Set_add_length: "length xs \<le> length (Set_add x xs)"
  by (simp add: Set_add_def)

lemma Set_add_present: "x \<in> set xs \<Longrightarrow> Set_add x xs = xs"
  by (simp add: Set_add_def)

lemma fewest_after_add:
  assumes ne: "sets \<noteq> []"
    and ck: "ck = (case fewest sets of [] \<Rightarrow> fresh | c # _ \<Rightarrow> c)"
  shows "\<exists>rest. fewest (map (Set_add ck) sets) = ck # rest"
proof (cases "fewest sets")
  case Nil
  let ?ys = "map (Set_add ck) sets"
  from ne have ne': "?ys \<noteq> []" by simp
  from fewest_mem [OF ne'] obtain S where S: "fewest ?ys = Set_add ck S" by auto
  from fewest_mem [OF ne] Nil have "[] \<in> set sets" by simp
  then have "Set_add ck [] \<in> Set_add ck ` set sets" by (rule imageI)
  then have "[ck] \<in> set ?ys" by (simp add: Set_add_def)
  from fewest_le [OF this] have le: "length (fewest ?ys) \<le> 1" by simp
  have "ck \<in> set (fewest ?ys)" unfolding S by (rule Set_add_mem)
  with le have "fewest ?ys = [ck]"
    by (cases "fewest ?ys") auto
  then show ?thesis by simp
next
  case (Cons c tl)
  with ck have c: "c = ck" by simp
  from fewest_split [OF ne] Cons c obtain pre post where
    d: "sets = pre @ (ck # tl) # post"
       "\<forall>x\<in>set pre. length (ck # tl) < length x"
       "\<forall>x\<in>set post. length (ck # tl) \<le> length x"
    by auto
  have "fewest (map (Set_add ck) sets) = ck # tl"
  proof (rule fewest_first_least [where pre = "map (Set_add ck) pre" and post = "map (Set_add ck) post"])
    show "map (Set_add ck) sets = map (Set_add ck) pre @ (ck # tl) # map (Set_add ck) post"
      by (subst d(1)) (simp add: Set_add_def)
    show "\<forall>x\<in>set (map (Set_add ck) pre). length (ck # tl) < length x"
      using d(2) Set_add_length [of _ ck] by (auto simp: less_le_trans)
    show "\<forall>x\<in>set (map (Set_add ck) post). length (ck # tl) \<le> length x"
      using d(3) Set_add_length [of _ ck] by (auto intro: order_trans)
  qed
  then show ?thesis by simp
qed

section \<open>What \<open>setCompositeKey\<close> and \<open>set\<close> do to the map\<close>

lemma register_fold:
  "heap s rid = Some r \<Longrightarrow>
   foldl (\<lambda>s' other. register rid other held tok s') s others =
     s\<lparr>heap := (heap s)(rid \<mapsto> r\<lparr>registrations := registrations r @
        map (\<lambda>other. \<lparr>target = other, heldValue = held, token = tok\<rparr>) others\<rparr>)\<rparr>"
proof (induction others arbitrary: s r)
  case Nil
  then have "(heap s)(rid \<mapsto> r) = heap s" by (simp add: map_upd_triv)
  then show ?case by simp
next
  case (Cons other others)
  let ?r1 = "r\<lparr>registrations := registrations r @
                [\<lparr>target = other, heldValue = held, token = tok\<rparr>]\<rparr>"
  let ?s1 = "s\<lparr>heap := (heap s)(rid \<mapsto> ?r1)\<rparr>"
  from Cons.prems have step: "register rid other held tok s = ?s1"
    by (simp add: register_def)
  have "heap ?s1 rid = Some ?r1" by simp
  then have "foldl (\<lambda>s' other. register rid other held tok s') ?s1 others =
     ?s1\<lparr>heap := (heap ?s1)(rid \<mapsto> ?r1\<lparr>registrations := registrations ?r1 @
        map (\<lambda>other. \<lparr>target = other, heldValue = held, token = tok\<rparr>) others\<rparr>)\<rparr>"
    by (rule Cons.IH)
  also have "\<dots> = s\<lparr>heap := (heap s)(rid \<mapsto> r\<lparr>registrations := registrations r @
        map (\<lambda>other. \<lparr>target = other, heldValue = held, token = tok\<rparr>) (other # others)\<rparr>)\<rparr>"
    by simp
  finally show ?case unfolding foldl_Cons step .
qed

lemma setPartialKey_eq:
  assumes "heap s rid = Some r"
  shows "setPartialKey rid ck partialKeys s (index, partialKey) =
     s\<lparr>compositeKeyMap := (compositeKeyMap s)(partialKey \<mapsto>
          (case compositeKeyMap s partialKey of Some m \<Rightarrow> m | None \<Rightarrow> Map.empty)
            (createPartialKeyPosition index (length partialKeys) \<mapsto>
               Set_add ck (lookupCandidates s partialKey
                 (createPartialKeyPosition index (length partialKeys))))),
       nextObject := nextObject s + 1,
       heap := (heap s)(rid \<mapsto> r\<lparr>registrations := registrations r @
          watchesFor partialKeys (nextObject s) (index, partialKey)\<rparr>)\<rparr>"
proof -
  have lc: "lookupCandidates s partialKey (createPartialKeyPosition index (length partialKeys)) =
    (case (case compositeKeyMap s partialKey of Some m \<Rightarrow> m | None \<Rightarrow> Map.empty)
            (createPartialKeyPosition index (length partialKeys)) of
       Some cs \<Rightarrow> cs | None \<Rightarrow> [])"
    by (simp add: lookupCandidates_def split: option.splits)
  show ?thesis
    unfolding setPartialKey_def Let_def prod.case lc
    by (subst register_fold [where r = r]) (simp_all add: assms watchesFor_def)
qed


lemma setPartialKey_heap:
  "heap s rid = Some r \<Longrightarrow>
   heap (setPartialKey rid ck partialKeys s (index, partialKey)) rid =
     Some (r\<lparr>registrations := registrations r @
             watchesFor partialKeys (nextObject s) (index, partialKey)\<rparr>)"
  by (simp add: setPartialKey_eq)

lemma setPartialKey_candidates:
  assumes "heap s rid = Some r"
  shows "lookupCandidates (setPartialKey rid ck partialKeys s (index, partialKey)) key pos =
     (if key = partialKey \<and> pos = createPartialKeyPosition index (length partialKeys)
      then Set_add ck (lookupCandidates s key pos)
      else lookupCandidates s key pos)"
  unfolding setPartialKey_eq [OF assms]
  by (simp add: lookupCandidates_def split: option.splits)

lemma setLoop_fields:
  "heap s rid = Some r \<Longrightarrow>
   resultMap (foldl (setPartialKey rid ck partialKeys) s es) = resultMap s \<and>
   registries (foldl (setPartialKey rid ck partialKeys) s es) = registries s \<and>
   reclaimed (foldl (setPartialKey rid ck partialKeys) s es) = reclaimed s \<and>
   nextObject (foldl (setPartialKey rid ck partialKeys) s es) = nextObject s + length es \<and>
   heap (foldl (setPartialKey rid ck partialKeys) s es) =
     (heap s)(rid \<mapsto> r\<lparr>registrations := registrations r @
        concat (map (\<lambda>(tok, entry). watchesFor partialKeys tok entry)
                  (enumerate (nextObject s) es))\<rparr>)"
proof (induction es arbitrary: s r)
  case Nil
  then show ?case by (simp add: map_upd_triv)
next
  case (Cons e es)
  obtain index partialKey where e: "e = (index, partialKey)" by (cases e)
  let ?s1 = "setPartialKey rid ck partialKeys s (index, partialKey)"
  let ?r1 = "r\<lparr>registrations := registrations r @
               watchesFor partialKeys (nextObject s) (index, partialKey)\<rparr>"
  have h1: "heap ?s1 rid = Some ?r1" using Cons.prems by (rule setPartialKey_heap)
  have f1: "resultMap ?s1 = resultMap s" "registries ?s1 = registries s"
    "reclaimed ?s1 = reclaimed s" "nextObject ?s1 = nextObject s + 1"
    "heap ?s1 = (heap s)(rid \<mapsto> ?r1)"
    by (simp_all add: setPartialKey_eq [OF Cons.prems])
  from Cons.IH [OF h1] show ?case
    by (auto simp add: e f1)
qed

lemma setLoop_candidates:
  "heap s rid = Some r \<Longrightarrow>
   lookupCandidates (foldl (setPartialKey rid ck partialKeys) s es) key pos =
     (if (key, pos) \<in> (\<lambda>(index, partialKey).
                          (partialKey, createPartialKeyPosition index (length partialKeys))) ` set es
      then Set_add ck (lookupCandidates s key pos)
      else lookupCandidates s key pos)"
proof (induction es arbitrary: s r)
  case Nil
  show ?case by simp
next
  case (Cons e es)
  obtain index partialKey where e: "e = (index, partialKey)" by (cases e)
  let ?s1 = "setPartialKey rid ck partialKeys s (index, partialKey)"
  from Cons.prems have "\<exists>r1. heap ?s1 rid = Some r1" by (simp add: setPartialKey_heap)
  then obtain r1 where h1: "heap ?s1 rid = Some r1" ..
  show ?case
    by (simp add: e Cons.IH [OF h1] setPartialKey_candidates [OF Cons.prems] Set_add_idem)
qed


lemma setCompositeKey_fields:
  "resultMap (setCompositeKey s partialKeys ck) = resultMap s \<and>
   registries (setCompositeKey s partialKeys ck) = Set_add (nextObject s) (registries s) \<and>
   reclaimed (setCompositeKey s partialKeys ck) = reclaimed s \<and>
   heap (setCompositeKey s partialKeys ck) =
     (heap s)(nextObject s \<mapsto>
        \<lparr>closedCompositeKey = ck, registrations = expectedWatches (nextObject s) partialKeys\<rparr>)"
proof -
  let ?r = "\<lparr>closedCompositeKey = ck, registrations = []\<rparr>"
  let ?s1 = "s\<lparr>heap := (heap s)(nextObject s \<mapsto> ?r),
               registries := Set_add (nextObject s) (registries s),
               nextObject := nextObject s + 1\<rparr>"
  have h: "heap ?s1 (nextObject s) = Some ?r" by simp
  from setLoop_fields [OF h, of ck partialKeys "enumerate 0 partialKeys"] show ?thesis
    by (auto simp add: setCompositeKey_def Let_def expectedWatches_def)
qed

lemma setCompositeKey_candidates:
  "lookupCandidates (setCompositeKey s partialKeys ck) key pos =
     (if (key, pos) \<in> (\<lambda>(index, partialKey).
            (partialKey, createPartialKeyPosition index (length partialKeys))) `
               set (enumerate 0 partialKeys)
      then Set_add ck (lookupCandidates s key pos)
      else lookupCandidates s key pos)"
proof -
  let ?r = "\<lparr>closedCompositeKey = ck, registrations = []\<rparr>"
  let ?s1 = "s\<lparr>heap := (heap s)(nextObject s \<mapsto> ?r),
               registries := Set_add (nextObject s) (registries s),
               nextObject := nextObject s + 1\<rparr>"
  have h: "heap ?s1 (nextObject s) = Some ?r" by simp
  have l: "\<And>h g n. lookupCandidates (s\<lparr>heap := h, registries := g, nextObject := n\<rparr>) key pos =
    lookupCandidates s key pos"
    by (simp add: lookupCandidates_def)
  from setLoop_candidates [OF h, of ck partialKeys "enumerate 0 partialKeys" key pos] show ?thesis
    by (simp add: setCompositeKey_def Let_def l)
qed

lemma setCompositeKey_candidateSets:
  "candidateSets (setCompositeKey s partialKeys ck) partialKeys =
     map (Set_add ck) (candidateSets s partialKeys)"
  unfolding candidateSets_def map_map
  by (rule map_cong [OF refl]) (force simp add: setCompositeKey_candidates)

lemma candidateSets_cong:
  "compositeKeyMap s' = compositeKeyMap s \<Longrightarrow> candidateSets s' partialKeys = candidateSets s partialKeys"
  by (simp add: candidateSets_def lookupCandidates_def)

lemma set_cwm_unfold:
  assumes "partialKeys \<noteq> []"
  shows "\<exists>s1. compositeKeyMap s1 = compositeKeyMap s \<and> resultMap s1 = resultMap s \<and>
           heap s1 = heap s \<and> registries s1 = registries s \<and> reclaimed s1 = reclaimed s \<and>
           set_cwm s partialKeys v =
             (Inr (),
              (setCompositeKey s1 partialKeys
                 (case fewest (candidateSets s partialKeys) of [] \<Rightarrow> nextObject s | c # _ \<Rightarrow> c))
              \<lparr>resultMap := (resultMap s)
                 ((case fewest (candidateSets s partialKeys) of [] \<Rightarrow> nextObject s | c # _ \<Rightarrow> c)
                    \<mapsto> v)\<rparr>)"
proof (cases "fewest (candidateSets s partialKeys)")
  case Nil
  with assms show ?thesis
    by (intro exI [of _ "s\<lparr>nextObject := nextObject s + 1\<rparr>"])
       (simp add: set_cwm_def assertKeysValid_def getOrCreateCompositeKey_def
          getCompositeKey_pivot Let_def setCompositeKey_fields)
next
  case (Cons c tl)
  with assms show ?thesis
    by (intro exI [of _ s])
       (simp add: set_cwm_def assertKeysValid_def getOrCreateCompositeKey_def
          getCompositeKey_pivot Let_def setCompositeKey_fields)
qed

lemma set_cwm_resolves:
  assumes "partialKeys \<noteq> []"
  shows "\<exists>ck. getCompositeKey (snd (set_cwm s partialKeys v)) partialKeys = Inr (Some ck) \<and>
           resultMap (snd (set_cwm s partialKeys v)) ck = Some v"
proof -
  let ?ck = "case fewest (candidateSets s partialKeys) of [] \<Rightarrow> nextObject s | c # _ \<Rightarrow> c"
  from set_cwm_unfold [OF assms, of s v] obtain s1 where
    s1: "compositeKeyMap s1 = compositeKeyMap s"
    and eq: "set_cwm s partialKeys v =
      (Inr (), (setCompositeKey s1 partialKeys ?ck)\<lparr>resultMap := (resultMap s)(?ck \<mapsto> v)\<rparr>)"
    by blast
  let ?s' = "(setCompositeKey s1 partialKeys ?ck)\<lparr>resultMap := (resultMap s)(?ck \<mapsto> v)\<rparr>"
  have "candidateSets ?s' partialKeys = candidateSets (setCompositeKey s1 partialKeys ?ck) partialKeys"
    by (rule candidateSets_cong) simp
  also have "\<dots> = map (Set_add ?ck) (candidateSets s1 partialKeys)"
    by (rule setCompositeKey_candidateSets)
  also have "candidateSets s1 partialKeys = candidateSets s partialKeys"
    using s1 by (rule candidateSets_cong)
  finally have cs: "candidateSets ?s' partialKeys = map (Set_add ?ck) (candidateSets s partialKeys)" .
  have "\<exists>rest. fewest (map (Set_add ?ck) (candidateSets s partialKeys)) = ?ck # rest"
    by (rule fewest_after_add [where fresh = "nextObject s"])
       (simp_all add: candidateSets_nonempty [OF assms])
  then obtain rest where "fewest (map (Set_add ?ck) (candidateSets s partialKeys)) = ?ck # rest" ..
  then have "getCompositeKey ?s' partialKeys = Inr (Some ?ck)"
    by (simp add: getCompositeKey_pivot [OF assms] cs)
  then show ?thesis unfolding eq by (intro exI [of _ ?ck]) simp
qed

lemma set_cwm_eq:
  assumes "partialKeys \<noteq> []"
  shows "set_cwm s partialKeys v =
     (Inr (),
      (setCompositeKey (s\<lparr>nextObject := setRegistry s partialKeys\<rparr>) partialKeys
         (setKey s partialKeys))
      \<lparr>resultMap := (resultMap s)(setKey s partialKeys \<mapsto> v)\<rparr>)"
proof (cases "fewest (candidateSets s partialKeys)")
  case Nil
  with assms show ?thesis
    by (simp add: set_cwm_def assertKeysValid_def getOrCreateCompositeKey_def setKey_def
        setRegistry_def getCompositeKey_pivot Let_def setCompositeKey_fields)
next
  case (Cons c tl)
  with assms show ?thesis
    by (simp add: set_cwm_def assertKeysValid_def getOrCreateCompositeKey_def setKey_def
        setRegistry_def getCompositeKey_pivot Let_def setCompositeKey_fields)
qed

lemma set_cwm_fields:
  assumes "partialKeys \<noteq> []"
  shows "heap (snd (set_cwm s partialKeys v)) =
           (heap s)(setRegistry s partialKeys \<mapsto>
              \<lparr>closedCompositeKey = setKey s partialKeys,
               registrations = expectedWatches (setRegistry s partialKeys) partialKeys\<rparr>)"
    and "registries (snd (set_cwm s partialKeys v)) =
           Set_add (setRegistry s partialKeys) (registries s)"
    and "reclaimed (snd (set_cwm s partialKeys v)) = reclaimed s"
    and "resultMap (snd (set_cwm s partialKeys v)) = (resultMap s)(setKey s partialKeys \<mapsto> v)"
  by (simp_all add: set_cwm_eq [OF assms] setCompositeKey_fields)

lemma lookupCandidates_cong:
  "compositeKeyMap s' = compositeKeyMap s \<Longrightarrow> lookupCandidates s' key pos = lookupCandidates s key pos"
  by (simp add: lookupCandidates_def)

lemma set_cwm_candidates:
  assumes "partialKeys \<noteq> []"
  shows "lookupCandidates (snd (set_cwm s partialKeys v)) key pos =
     (if (key, pos) \<in> (\<lambda>(index, partialKey).
            (partialKey, createPartialKeyPosition index (length partialKeys))) `
               set (enumerate 0 partialKeys)
      then Set_add (setKey s partialKeys) (lookupCandidates s key pos)
      else lookupCandidates s key pos)"
proof -
  have a: "lookupCandidates (snd (set_cwm s partialKeys v)) key pos =
    lookupCandidates (setCompositeKey (s\<lparr>nextObject := setRegistry s partialKeys\<rparr>) partialKeys
         (setKey s partialKeys)) key pos"
    by (rule lookupCandidates_cong) (simp add: set_cwm_eq [OF assms])
  have b: "lookupCandidates (s\<lparr>nextObject := setRegistry s partialKeys\<rparr>) key pos =
    lookupCandidates s key pos"
    by (rule lookupCandidates_cong) simp
  show ?thesis unfolding a setCompositeKey_candidates b ..
qed

lemma expectedWatches_iff:
  "c \<in> set (expectedWatches rid partialKeys) \<longleftrightarrow>
     (\<exists>i k'. i < length partialKeys \<and> k' \<in> set partialKeys \<and> k' \<noteq> partialKeys ! i \<and>
        c = watch rid partialKeys i k')"
proof
  assume "c \<in> set (expectedWatches rid partialKeys)"
  then obtain tok i k where
    e: "(tok, (i, k)) \<in> set (enumerate (rid + 1) (enumerate 0 partialKeys))"
    and c: "c \<in> set (watchesFor partialKeys tok (i, k))"
    by (auto simp add: expectedWatches_def)
  from e have "i < length partialKeys" "k = partialKeys ! i" "tok = rid + 1 + i"
    by (auto simp add: in_set_enumerate_eq nth_enumerate_eq)
  with c show "\<exists>i k'. i < length partialKeys \<and> k' \<in> set partialKeys \<and> k' \<noteq> partialKeys ! i \<and>
        c = watch rid partialKeys i k'"
    by (auto simp add: watchesFor_def watch_def)
next
  assume "\<exists>i k'. i < length partialKeys \<and> k' \<in> set partialKeys \<and> k' \<noteq> partialKeys ! i \<and>
        c = watch rid partialKeys i k'"
  then obtain i k' where i: "i < length partialKeys" and k': "k' \<in> set partialKeys"
    "k' \<noteq> partialKeys ! i" and c: "c = watch rid partialKeys i k'" by blast
  from i have "(rid + 1 + i, (i, partialKeys ! i)) \<in> set (enumerate (rid + 1) (enumerate 0 partialKeys))"
    by (simp add: in_set_enumerate_eq nth_enumerate_eq)
  moreover from k' c have "c \<in> set (watchesFor partialKeys (rid + 1 + i) (i, partialKeys ! i))"
    by (auto simp add: watchesFor_def watch_def)
  ultimately show "c \<in> set (expectedWatches rid partialKeys)"
    unfolding expectedWatches_def by (auto intro!: bexI)
qed

section \<open>What a finalization callback does to the map\<close>

lemma filter_remove1_rejected: "\<not> P c \<Longrightarrow> filter P (remove1 c xs) = filter P xs"
  by (induction xs) auto

lemma lookupCandidates_nonempty:
  "lookupCandidates s key pos \<noteq> [] \<Longrightarrow>
   \<exists>m cs. compositeKeyMap s key = Some m \<and> m pos = Some cs"
  by (auto simp add: lookupCandidates_def split: option.splits)

lemma finalize_eq:
  assumes "heap s rid = Some r"
    and "c \<in> set (registrations r)"
    and "target c \<in> reclaimed s"
    and "partialKeyRef (heldValue c) \<notin> reclaimed s"
    and "compositeKeyMap s (partialKeyRef (heldValue c)) = Some m"
    and "m (partialKeyPos (heldValue c)) = Some cs"
  shows "finalize rid c s =
     s\<lparr>compositeKeyMap := (compositeKeyMap s)(partialKeyRef (heldValue c) \<mapsto>
          m(partialKeyPos (heldValue c) \<mapsto> Set_delete (closedCompositeKey r) cs)),
       heap := (heap s)(rid \<mapsto> r\<lparr>registrations :=
          filter (\<lambda>c'. token c' \<noteq> unregisterToken (heldValue c))
            (remove1 c (registrations r))\<rparr>),
       registries := Set_delete rid (registries s)\<rparr>"
  using assms
  by (simp add: finalize_def cleanupCallback_def deref_def unregister_def Let_def)

lemma finalize_pending:
  assumes "heap s rid = Some r"
    and "c \<in> set (registrations r)"
    and "target c \<in> reclaimed s"
    and "partialKeyRef (heldValue c) \<notin> reclaimed s"
    and "lookupCandidates s (partialKeyRef (heldValue c)) (partialKeyPos (heldValue c)) \<noteq> []"
    and "unregisterToken (heldValue c) = token c"
  shows "map_option registrations (heap (finalize rid c s) rid) =
           Some (filter (\<lambda>c'. token c' \<noteq> token c) (registrations r))"
    and "registries (finalize rid c s) = Set_delete rid (registries s)"
proof -
  from lookupCandidates_nonempty [OF assms(5)] obtain m cs where
    m: "compositeKeyMap s (partialKeyRef (heldValue c)) = Some m"
       "m (partialKeyPos (heldValue c)) = Some cs" by blast
  note eq = finalize_eq [OF assms(1-4) m]
  have "filter (\<lambda>c'. token c' \<noteq> token c) (remove1 c (registrations r)) =
        filter (\<lambda>c'. token c' \<noteq> token c) (registrations r)"
    by (rule filter_remove1_rejected) simp
  then show "map_option registrations (heap (finalize rid c s) rid) =
           Some (filter (\<lambda>c'. token c' \<noteq> token c) (registrations r))"
    by (simp add: eq assms(6))
  show "registries (finalize rid c s) = Set_delete rid (registries s)"
    by (simp add: eq)
qed

lemma finalize_candidates:
  assumes "heap s rid = Some r"
    and "c \<in> set (registrations r)"
    and "target c \<in> reclaimed s"
    and "partialKeyRef (heldValue c) \<notin> reclaimed s"
    and "lookupCandidates s (partialKeyRef (heldValue c)) (partialKeyPos (heldValue c)) \<noteq> []"
  shows "lookupCandidates (finalize rid c s) key pos =
     (if key = partialKeyRef (heldValue c) \<and> pos = partialKeyPos (heldValue c)
      then Set_delete (closedCompositeKey r) (lookupCandidates s key pos)
      else lookupCandidates s key pos)"
proof -
  from lookupCandidates_nonempty [OF assms(5)] obtain m cs where
    m: "compositeKeyMap s (partialKeyRef (heldValue c)) = Some m"
       "m (partialKeyPos (heldValue c)) = Some cs" by blast
  show ?thesis unfolding finalize_eq [OF assms(1-4) m]
    using m by (simp add: lookupCandidates_def split: option.splits)
qed

lemma reclaim_fields:
  "heap (reclaim k s) = heap s" "registries (reclaim k s) = registries s"
  "reclaimed (reclaim k s) = insert k (reclaimed s)" "resultMap (reclaim k s) = resultMap s"
  "key \<noteq> k \<Longrightarrow> lookupCandidates (reclaim k s) key pos = lookupCandidates s key pos"
  "lookupCandidates (reclaim k s) k pos = []"
  by (simp_all add: reclaim_def lookupCandidates_def)

lemma cleanupCallback_registries:
  "heap s rid = Some r \<Longrightarrow>
   registries (cleanupCallback rid held s) =
     (if callbackCompletes s held then Set_delete rid (registries s) else registries s)"
  by (simp add: cleanupCallback_def callbackCompletes_def unregister_def Let_def
      split: option.splits)

lemma cleanupCallback_registrations:
  "heap s rid = Some r \<Longrightarrow>
   map_option registrations (heap (cleanupCallback rid held s) rid) =
     Some (if callbackCompletes s held
           then filter (\<lambda>c'. token c' \<noteq> unregisterToken held) (registrations r)
           else registrations r)"
  by (simp add: cleanupCallback_def callbackCompletes_def unregister_def Let_def
      split: option.splits)

lemma callbackCompletes_heap:
  "callbackCompletes (s\<lparr>heap := h\<rparr>) held = callbackCompletes s held"
  by (simp add: callbackCompletes_def deref_def)

lemma finalize_registries:
  "registries (finalize rid c s) =
     (if delivers s rid c \<and> callbackCompletes s (heldValue c)
      then Set_delete rid (registries s) else registries s)"
proof (cases "heap s rid")
  case None
  then show ?thesis by (simp add: finalize_def delivers_def)
next
  case (Some r)
  let ?sd = "s\<lparr>heap := (heap s)(rid \<mapsto> r\<lparr>registrations := remove1 c (registrations r)\<rparr>)\<rparr>"
  have "heap ?sd rid = Some (r\<lparr>registrations := remove1 c (registrations r)\<rparr>)" by simp
  from cleanupCallback_registries [OF this, of "heldValue c"] Some show ?thesis
    by (simp add: finalize_def delivers_def callbackCompletes_heap)
qed

lemma finalize_registrations:
  assumes "heap s rid = Some r" and "delivers s rid c"
  shows "map_option registrations (heap (finalize rid c s) rid) =
     Some (if callbackCompletes s (heldValue c)
           then filter (\<lambda>c'. token c' \<noteq> unregisterToken (heldValue c))
                  (remove1 c (registrations r))
           else remove1 c (registrations r))"
proof -
  let ?sd = "s\<lparr>heap := (heap s)(rid \<mapsto> r\<lparr>registrations := remove1 c (registrations r)\<rparr>)\<rparr>"
  have "heap ?sd rid = Some (r\<lparr>registrations := remove1 c (registrations r)\<rparr>)" by simp
  from cleanupCallback_registrations [OF this, of "heldValue c"] assms show ?thesis
    by (auto simp add: finalize_def delivers_def callbackCompletes_heap)
qed

lemma callbackCompletes_iff:
  "callbackCompletes s held \<longleftrightarrow>
     partialKeyRef held \<notin> reclaimed s \<and>
     (\<exists>m cs. compositeKeyMap s (partialKeyRef held) = Some m \<and> m (partialKeyPos held) = Some cs)"
  by (auto simp add: callbackCompletes_def deref_def split: option.splits)

section \<open>The example maps, computed\<close>

lemma threeKeys_new:
  "setRegistry (newCompositeWeakMap :: nat CompositeWeakMap) [10, 11, 12] = Suc 0"
  "setKey (newCompositeWeakMap :: nat CompositeWeakMap) [10, 11, 12] = 0"
  by (simp_all add: setRegistry_def setKey_def getCompositeKey_pivot candidateSets_def
      lookupCandidates_def newCompositeWeakMap_def fewest_def enumerate_eq_zip)

lemma threeKeys_watches:
  "expectedWatches (Suc 0) [10, 11, 12] =
   [\<lparr>target = 11, heldValue = \<lparr>partialKeyRef = 10, partialKeyPos = ''1/3'', unregisterToken = 2\<rparr>, token = 2\<rparr>,
    \<lparr>target = 12, heldValue = \<lparr>partialKeyRef = 10, partialKeyPos = ''1/3'', unregisterToken = 2\<rparr>, token = 2\<rparr>,
    \<lparr>target = 10, heldValue = \<lparr>partialKeyRef = 11, partialKeyPos = ''2/3'', unregisterToken = 3\<rparr>, token = 3\<rparr>,
    \<lparr>target = 12, heldValue = \<lparr>partialKeyRef = 11, partialKeyPos = ''2/3'', unregisterToken = 3\<rparr>, token = 3\<rparr>,
    \<lparr>target = 10, heldValue = \<lparr>partialKeyRef = 12, partialKeyPos = ''3/3'', unregisterToken = 4\<rparr>, token = 4\<rparr>,
    \<lparr>target = 11, heldValue = \<lparr>partialKeyRef = 12, partialKeyPos = ''3/3'', unregisterToken = 4\<rparr>, token = 4\<rparr>]"
  by (simp add: expectedWatches_def watchesFor_def enumerate_eq_zip upt_rec
      createPartialKeyPosition_def numberToString.simps)


lemma threeKeys_state:
  "heap threeKeys (Suc 0) = Some \<lparr>closedCompositeKey = 0, registrations = expectedWatches (Suc 0) [10, 11, 12]\<rparr>"
  "registries threeKeys = [Suc 0]"
  "reclaimed threeKeys = {}"
  "lookupCandidates threeKeys 10 ''1/3'' = [0]"
  "lookupCandidates threeKeys 11 ''2/3'' = [0]"
proof -
  have ne: "[10, 11, 12] \<noteq> ([] :: PartialKey list)" by simp
  show "heap threeKeys (Suc 0) = Some \<lparr>closedCompositeKey = 0, registrations = expectedWatches (Suc 0) [10, 11, 12]\<rparr>"
    unfolding threeKeys_def set_cwm_fields [OF ne] threeKeys_new by simp
  show "registries threeKeys = [Suc 0]"
    unfolding threeKeys_def set_cwm_fields [OF ne] threeKeys_new
    by (simp add: newCompositeWeakMap_def Set_add_def)
  show "reclaimed threeKeys = {}"
    unfolding threeKeys_def set_cwm_fields [OF ne] by (simp add: newCompositeWeakMap_def)
  show "lookupCandidates threeKeys 10 ''1/3'' = [0]"
    unfolding threeKeys_def set_cwm_candidates [OF ne] threeKeys_new
    by (simp add: enumerate_eq_zip upt_rec createPartialKeyPosition_def numberToString.simps
        lookupCandidates_def newCompositeWeakMap_def Set_add_def)
  show "lookupCandidates threeKeys 11 ''2/3'' = [0]"
    unfolding threeKeys_def set_cwm_candidates [OF ne] threeKeys_new
    by (simp add: enumerate_eq_zip upt_rec createPartialKeyPosition_def numberToString.simps
        lookupCandidates_def newCompositeWeakMap_def Set_add_def)
qed

lemma afterFirstCallback_state:
  "map_option registrations (heap afterFirstCallback (Suc 0)) =
     Some (filter (\<lambda>c'. token c' \<noteq> 2) (expectedWatches (Suc 0) [10, 11, 12]))"
  "registries afterFirstCallback = []"
  "lookupCandidates afterFirstCallback 10 ''1/3'' = []"
  "lookupCandidates afterFirstCallback 11 ''2/3'' = [0]"
proof -
  let ?sr = "reclaim 12 threeKeys"
  let ?r = "\<lparr>closedCompositeKey = 0, registrations = expectedWatches (Suc 0) [10, 11, 12]\<rparr>"
  have c1: "heap ?sr (Suc 0) = Some ?r" by (simp add: reclaim_fields threeKeys_state)
  have c2: "firstWatch \<in> set (registrations ?r)"
    by (simp add: threeKeys_watches firstWatch_def)
  have c3: "target firstWatch \<in> reclaimed ?sr" by (simp add: reclaim_fields firstWatch_def)
  have c4: "partialKeyRef (heldValue firstWatch) \<notin> reclaimed ?sr"
    by (simp add: reclaim_fields firstWatch_def threeKeys_state)
  have c5: "lookupCandidates ?sr (partialKeyRef (heldValue firstWatch))
              (partialKeyPos (heldValue firstWatch)) \<noteq> []"
    by (simp add: reclaim_fields firstWatch_def threeKeys_state)
  have c6: "unregisterToken (heldValue firstWatch) = token firstWatch"
    by (simp add: firstWatch_def)
  from finalize_pending(1) [OF c1 c2 c3 c4 c5 c6]
  show "map_option registrations (heap afterFirstCallback (Suc 0)) =
     Some (filter (\<lambda>c'. token c' \<noteq> 2) (expectedWatches (Suc 0) [10, 11, 12]))"
    by (simp add: afterFirstCallback_def firstWatch_def)
  from finalize_pending(2) [OF c1 c2 c3 c4 c5 c6]
  show "registries afterFirstCallback = []"
    by (simp add: afterFirstCallback_def reclaim_fields threeKeys_state Set_delete_def)
  show "lookupCandidates afterFirstCallback 10 ''1/3'' = []"
    unfolding afterFirstCallback_def One_nat_def finalize_candidates [OF c1 c2 c3 c4 c5]
    by (simp add: firstWatch_def reclaim_fields threeKeys_state Set_delete_def)
  show "lookupCandidates afterFirstCallback 11 ''2/3'' = [0]"
    unfolding afterFirstCallback_def One_nat_def finalize_candidates [OF c1 c2 c3 c4 c5]
    by (simp add: firstWatch_def reclaim_fields threeKeys_state Set_delete_def)
qed

lemma expectedWatches_same_key:
  assumes "\<forall>k\<in>set partialKeys. k = a"
  shows "expectedWatches rid partialKeys = []"
proof (rule ccontr)
  assume "expectedWatches rid partialKeys \<noteq> []"
  then obtain c where "c \<in> set (expectedWatches rid partialKeys)"
    by (cases "expectedWatches rid partialKeys") auto
  then obtain i k' where "i < length partialKeys" "k' \<in> set partialKeys"
    "k' \<noteq> partialKeys ! i"
    unfolding expectedWatches_iff by blast
  with assms show False by (metis nth_mem)
qed

text \<open>The definitions a concrete call unfolds to.\<close>

lemmas run =
  get_def set_cwm_def has_def delete_def assertKeysValid_def getCompositeKey_def
  getOrCreateCompositeKey_def setCompositeKey_def setPartialKey_def register_def unregister_def
  newCompositeWeakMap_def createPartialKeyPosition_def numberToString.simps remove_def splice_def
  Set_add_def Set_delete_def enumerate_eq_zip Let_def oneBinding_def twoBindings_def

section \<open>Empty key arrays\<close>

text \<open>
  C8. Each of \<open>get\<close>, \<open>set\<close>, \<open>has\<close> and \<open>delete\<close>, called with a key array of length 0,
  throws the error 'At least one key is required.' and leaves the map exactly as it was: no
  index entry, value entry, registry or registration is created or removed.
\<close>

theorem empty_keys_rejected:
  "get s [] = (Inl AtLeastOneKeyRequired, s) \<and>
   set_cwm s [] v = (Inl AtLeastOneKeyRequired, s) \<and>
   has s [] = (Inl AtLeastOneKeyRequired, s) \<and>
   delete s [] = (Inl AtLeastOneKeyRequired, s)"
  by (simp add: get_def set_cwm_def has_def delete_def assertKeysValid_def)

section \<open>What the lookups change\<close>

text \<open>
  C9. \<open>get\<close> and \<open>has\<close> return the map unchanged. \<open>delete\<close> changes nothing but
  \<open>resultMap\<close>: the index \<open>compositeKeyMap\<close>, the registries held by the map, every registry's
  pending registrations, the reclaimed keys and the allocator are as before the call, and
  \<open>resultMap\<close> is either as before or has lost the entry of the composite key the key array
  resolved to, and no other.
\<close>

theorem lookups_frame:
  "snd (get s partialKeys) = s \<and>
   snd (has s partialKeys) = s \<and>
   compositeKeyMap (snd (delete s partialKeys)) = compositeKeyMap s \<and>
   registries (snd (delete s partialKeys)) = registries s \<and>
   heap (snd (delete s partialKeys)) = heap s \<and>
   reclaimed (snd (delete s partialKeys)) = reclaimed s \<and>
   nextObject (snd (delete s partialKeys)) = nextObject s \<and>
   (resultMap (snd (delete s partialKeys)) = resultMap s \<or>
    (\<exists>compositeKey. getCompositeKey s partialKeys = Inr (Some compositeKey) \<and>
       resultMap (snd (delete s partialKeys)) = (resultMap s)(compositeKey := None)))"
  by (simp add: get_def has_def delete_def split: sum.splits option.splits)

section \<open>Writing and reading back\<close>

text \<open>
  C5. For every non-empty key array and every value, in any state of the map, \<open>set\<close> returns
  normally and a \<open>get\<close> of the same key array right after it returns the value that was set.
\<close>

theorem set_get_roundtrip:
  assumes "partialKeys \<noteq> []"
  shows "fst (set_cwm s partialKeys v) = Inr () \<and>
         fst (get (snd (set_cwm s partialKeys v)) partialKeys) = Inr v"
proof -
  from set_cwm_unfold [OF assms, of s v] have "fst (set_cwm s partialKeys v) = Inr ()" by auto
  moreover from set_cwm_resolves [OF assms, of s v] assms
  have "fst (get (snd (set_cwm s partialKeys v)) partialKeys) = Inr v"
    by (auto simp add: get_def assertKeysValid_def)
  ultimately show ?thesis ..
qed

theorem set_get_roundtrip_witness:
  "[10, 13] \<noteq> ([] :: PartialKey list) \<and>
   fst (set_cwm twoBindings [10, 13] (Val 3)) = Inr () \<and>
   fst (get (snd (set_cwm twoBindings [10, 13] (Val 3))) [10, 13]) = Inr (Val 3)"
proof -
  have ne: "[10, 13] \<noteq> ([] :: PartialKey list)" by simp
  from set_get_roundtrip [OF ne, of twoBindings "Val 3"] ne show ?thesis by simp
qed

section \<open>Registrations made by \<open>set\<close>\<close>

text \<open>
  C3, as the code has it. A \<open>set\<close> of a non-empty key array whose keys are alive creates one
  registry, held by the map, whose pending registrations are exactly these: for every index
  \<open>i\<close> of the array and every key \<open>k'\<close> of the array other than the key at \<open>i\<close>, a
  registration on \<open>k'\<close> whose held value carries the weak reference to the key at \<open>i\<close>, the
  position of \<open>i\<close> and a token. The token is created once per index: registrations that hold
  the same index share it, registrations that hold different indices have different tokens.
  When the first of these registrations is delivered, in any later state where all of them are
  still pending and its target was reclaimed, there are two cases. If the callback finds the
  held key alive and indexed at the held position, exactly the pending registrations that share
  the delivered registration's token are unregistered and those made with another token stay
  pending. If it does not, the callback returns before it unregisters anything and every other
  registration stays pending. Right after the \<open>set\<close>, the first case is the one where only the
  target was reclaimed, and the second the one where the held key was reclaimed as well.
\<close>

theorem set_registers_watches:
  assumes ne: "partialKeys \<noteq> []" and alive: "set partialKeys \<inter> reclaimed s = {}"
  shows "\<exists>r. heap (snd (set_cwm s partialKeys v)) (setRegistry s partialKeys) = Some r \<and>
           setRegistry s partialKeys \<in> set (registries (snd (set_cwm s partialKeys v))) \<and>
           (\<forall>c. c \<in> set (registrations r) \<longleftrightarrow>
              (\<exists>i k'. i < length partialKeys \<and> k' \<in> set partialKeys \<and> k' \<noteq> partialKeys ! i \<and>
                 c = watch (setRegistry s partialKeys) partialKeys i k')) \<and>
           (\<forall>c\<in>set (registrations r). \<forall>s2.
              heap s2 (setRegistry s partialKeys) = Some r \<and> target c \<in> reclaimed s2 \<longrightarrow>
              map_option registrations
                (heap (finalize (setRegistry s partialKeys) c s2) (setRegistry s partialKeys)) =
              Some (if callbackCompletes s2 (heldValue c)
                    then filter (\<lambda>c'. token c' \<noteq> token c) (registrations r)
                    else remove1 c (registrations r))) \<and>
           (\<forall>c\<in>set (registrations r).
              callbackCompletes (reclaim (target c) (snd (set_cwm s partialKeys v))) (heldValue c) \<and>
              \<not> callbackCompletes
                   (reclaim (partialKeyRef (heldValue c))
                      (reclaim (target c) (snd (set_cwm s partialKeys v))))
                   (heldValue c))"
proof -
  let ?rid = "setRegistry s partialKeys"
  let ?s' = "snd (set_cwm s partialKeys v)"
  let ?r = "\<lparr>closedCompositeKey = setKey s partialKeys,
             registrations = expectedWatches ?rid partialKeys\<rparr>"
  have h: "heap ?s' ?rid = Some ?r" by (simp add: set_cwm_fields [OF ne])
  have reg: "?rid \<in> set (registries ?s')"
    by (simp add: set_cwm_fields [OF ne] Set_add_def)
  have tok: "unregisterToken (heldValue c) = token c" if "c \<in> set (registrations ?r)" for c
    using that by (auto simp add: expectedWatches_iff watch_def)
  have fire: "map_option registrations (heap (finalize ?rid c s2) ?rid) =
      Some (if callbackCompletes s2 (heldValue c)
            then filter (\<lambda>c'. token c' \<noteq> token c) (registrations ?r)
            else remove1 c (registrations ?r))"
    if c: "c \<in> set (registrations ?r)" and s2: "heap s2 ?rid = Some ?r" "target c \<in> reclaimed s2"
    for c s2
  proof -
    from c s2 have d: "delivers s2 ?rid c" by (simp add: delivers_def)
    have f: "filter (\<lambda>c'. token c' \<noteq> token c) (remove1 c (registrations ?r)) =
             filter (\<lambda>c'. token c' \<noteq> token c) (registrations ?r)"
      by (rule filter_remove1_rejected) simp
    from finalize_registrations [OF s2(1) d] show ?thesis
      by (simp only: tok [OF c] f)
  qed
  have completes: "callbackCompletes (reclaim (target c) ?s') (heldValue c) \<and>
      \<not> callbackCompletes (reclaim (partialKeyRef (heldValue c)) (reclaim (target c) ?s'))
           (heldValue c)"
    if c: "c \<in> set (registrations ?r)" for c
  proof -
    from c obtain i k' where i: "i < length partialKeys" and k': "k' \<in> set partialKeys"
      "k' \<noteq> partialKeys ! i" and cw: "c = watch ?rid partialKeys i k'"
      by (auto simp add: expectedWatches_iff)
    let ?k = "partialKeys ! i"
    let ?pos = "createPartialKeyPosition i (length partialKeys)"
    from i have kin: "?k \<in> set partialKeys" by simp
    from kin alive k' have live: "?k \<notin> reclaimed (reclaim k' ?s')"
      by (auto simp add: reclaim_fields set_cwm_fields [OF ne])
    from i have "(i, ?k) \<in> set (enumerate 0 partialKeys)"
      by (simp add: in_set_enumerate_eq)
    then have "(?k, ?pos) \<in> (\<lambda>(index, partialKey).
        (partialKey, createPartialKeyPosition index (length partialKeys))) `
          set (enumerate 0 partialKeys)" by force
    then have "lookupCandidates ?s' ?k ?pos = Set_add (setKey s partialKeys) (lookupCandidates s ?k ?pos)"
      by (simp add: set_cwm_candidates [OF ne])
    then have "lookupCandidates ?s' ?k ?pos \<noteq> []" by (auto simp add: Set_add_def)
    with k' have "lookupCandidates (reclaim k' ?s') ?k ?pos \<noteq> []"
      by (simp add: reclaim_fields)
    from lookupCandidates_nonempty [OF this] live
    have a: "callbackCompletes (reclaim k' ?s') (heldValue c)"
      by (simp add: callbackCompletes_iff cw watch_def)
    have b: "\<not> callbackCompletes (reclaim ?k (reclaim k' ?s')) (heldValue c)"
      by (simp add: callbackCompletes_iff cw watch_def reclaim_fields)
    have "target c = k'" "partialKeyRef (heldValue c) = ?k" by (simp_all add: cw watch_def)
    with a b show ?thesis by simp
  qed
  show ?thesis
    apply (rule exI [of _ ?r])
    apply (intro conjI h reg)
      apply (simp add: expectedWatches_iff)
     apply (intro ballI allI impI fire)
       apply assumption
      apply (erule conjunct1)
     apply (erule conjunct2)
    apply (intro ballI completes)
    apply assumption
    done
qed

theorem set_registers_watches_witness:
  "[10, 11, 12] \<noteq> ([] :: PartialKey list) \<and>
   set [10, 11, 12] \<inter> reclaimed (newCompositeWeakMap :: nat CompositeWeakMap) = {} \<and>
   (\<exists>r. heap threeKeys 1 = Some r \<and> 1 \<in> set (registries threeKeys) \<and>
      (\<forall>c. c \<in> set (registrations r) \<longleftrightarrow>
         (\<exists>i k'. i < length [10, 11, 12 :: PartialKey] \<and> k' \<in> set [10, 11, 12] \<and>
            k' \<noteq> [10, 11, 12] ! i \<and> c = watch 1 [10, 11, 12] i k')) \<and>
      (\<forall>c\<in>set (registrations r). \<forall>s2 :: nat CompositeWeakMap.
         heap s2 1 = Some r \<and> target c \<in> reclaimed s2 \<longrightarrow>
         map_option registrations (heap (finalize 1 c s2) 1) =
         Some (if callbackCompletes s2 (heldValue c)
               then filter (\<lambda>c'. token c' \<noteq> token c) (registrations r)
               else remove1 c (registrations r))) \<and>
      (\<forall>c\<in>set (registrations r).
         callbackCompletes (reclaim (target c) threeKeys) (heldValue c) \<and>
         \<not> callbackCompletes
              (reclaim (partialKeyRef (heldValue c)) (reclaim (target c) threeKeys))
              (heldValue c)))"
proof -
  have ne: "[10, 11, 12] \<noteq> ([] :: PartialKey list)" by simp
  have alive: "set [10, 11, 12] \<inter> reclaimed (newCompositeWeakMap :: nat CompositeWeakMap) = {}"
    by (simp add: newCompositeWeakMap_def)
  have rid: "setRegistry (newCompositeWeakMap :: nat CompositeWeakMap) [10, 11, 12] = 1"
    by (simp add: threeKeys_new)
  note w = set_registers_watches [OF ne alive, of "Val 1", unfolded rid, folded threeKeys_def]
  show ?thesis by (intro conjI ne alive w)
qed

text \<open>
  C3 as stated does not hold: the six registrations one \<open>set\<close> of three keys makes carry three
  different tokens, and after the first of them is delivered four are still pending.
\<close>

theorem tokens_differ_within_binding:
  "map_option (map token \<circ> registrations) (heap threeKeys 1) = Some [2, 2, 3, 3, 4, 4] \<and>
   map_option (map token \<circ> registrations) (heap afterFirstCallback 1) = Some [3, 3, 4, 4]"
proof -
  have "map_option (map token) (map_option registrations (heap afterFirstCallback (Suc 0))) =
      Some [3, 3, 4, 4]"
    unfolding afterFirstCallback_state by (simp add: threeKeys_watches)
  then show ?thesis
    by (simp add: threeKeys_state threeKeys_watches option.map_comp)
qed

section \<open>When the registry leaves the map\<close>

text \<open>
  C4, as the code has it. The registry a \<open>set\<close> creates is put in \<open>registries\<close> by that call,
  next to the registries already there. A registry in \<open>registries\<close> stays there through every
  \<open>get\<close>, \<open>has\<close> and \<open>delete\<close>, every reclaimed key, every callback of another registry and
  every callback of its own that returns early. It leaves \<open>registries\<close> exactly when one of its
  own pending registrations, whose target was reclaimed, is delivered and the callback gets
  past its early returns; how many registrations of that registry are still pending plays no
  part.
\<close>

theorem registry_held_until_callback_completes:
  assumes "partialKeys \<noteq> []"
  shows "(rid' \<in> set (registries (snd (set_cwm s partialKeys v))) \<longleftrightarrow>
            rid' = setRegistry s partialKeys \<or> rid' \<in> set (registries s)) \<and>
         (rid' \<in> set (registries (finalize rid c s)) \<longleftrightarrow>
            rid' \<in> set (registries s) \<and>
            \<not> (rid' = rid \<and> delivers s rid c \<and> callbackCompletes s (heldValue c))) \<and>
         registries (snd (get s keys)) = registries s \<and>
         registries (snd (has s keys)) = registries s \<and>
         registries (snd (delete s keys)) = registries s \<and>
         registries (reclaim k s) = registries s"
proof -
  have 1: "rid' \<in> set (registries (snd (set_cwm s partialKeys v))) \<longleftrightarrow>
            rid' = setRegistry s partialKeys \<or> rid' \<in> set (registries s)"
    by (auto simp add: set_cwm_fields [OF assms] Set_add_def)
  have 2: "rid' \<in> set (registries (finalize rid c s)) \<longleftrightarrow>
            rid' \<in> set (registries s) \<and>
            \<not> (rid' = rid \<and> delivers s rid c \<and> callbackCompletes s (heldValue c))"
    by (auto simp add: finalize_registries Set_delete_def)
  have 3: "registries (snd (get s keys)) = registries s"
    "registries (snd (has s keys)) = registries s"
    "registries (snd (delete s keys)) = registries s"
    by (simp_all add: get_def has_def delete_def split: sum.splits option.splits)
  have 4: "registries (reclaim k s) = registries s" by (simp add: reclaim_fields)
  from 1 2 3 4 show ?thesis by blast
qed

theorem registry_held_until_callback_completes_witness:
  "[10, 11] \<noteq> ([] :: PartialKey list) \<and>
   ((1 \<in> set (registries (snd (set_cwm (reclaim 12 threeKeys) [10, 11] (Val 5)))) \<longleftrightarrow>
       1 = setRegistry (reclaim 12 threeKeys) [10, 11] \<or>
       1 \<in> set (registries (reclaim 12 threeKeys))) \<and>
    (1 \<in> set (registries (finalize 1 firstWatch (reclaim 12 threeKeys))) \<longleftrightarrow>
       1 \<in> set (registries (reclaim 12 threeKeys)) \<and>
       \<not> (1 = (1 :: nat) \<and> delivers (reclaim 12 threeKeys) 1 firstWatch \<and>
            callbackCompletes (reclaim 12 threeKeys) (heldValue firstWatch))) \<and>
    registries (snd (get (reclaim 12 threeKeys) [10, 11])) = registries (reclaim 12 threeKeys) \<and>
    registries (snd (has (reclaim 12 threeKeys) [10, 11])) = registries (reclaim 12 threeKeys) \<and>
    registries (snd (delete (reclaim 12 threeKeys) [10, 11])) =
      registries (reclaim 12 threeKeys) \<and>
    registries (reclaim 12 (reclaim 12 threeKeys)) = registries (reclaim 12 threeKeys))"
proof -
  have ne: "[10, 11] \<noteq> ([] :: PartialKey list)" by simp
  show ?thesis
    by (rule conjI [OF ne registry_held_until_callback_completes [OF ne]])
qed

text \<open>
  C4 as stated does not hold. \<open>set([k10, k11, k12], 1)\<close> on a new map puts its registry in
  \<open>registries\<close>. Key 12 is reclaimed and the registration on 12 that holds key 10 is delivered:
  the callback takes the registry out of \<open>registries\<close> while four registrations of that
  registry are still pending, among them the one on 12 that holds key 11, and while key 11
  still has the composite key in its candidate set.
\<close>

theorem registry_released_with_watches_pending:
  "registries threeKeys = [1] \<and>
   registries afterFirstCallback = [] \<and>
   map_option registrations (heap afterFirstCallback 1) = Some
     [\<lparr>target = 10, heldValue = \<lparr>partialKeyRef = 11, partialKeyPos = ''2/3'', unregisterToken = 3\<rparr>, token = 3\<rparr>,
      \<lparr>target = 12, heldValue = \<lparr>partialKeyRef = 11, partialKeyPos = ''2/3'', unregisterToken = 3\<rparr>, token = 3\<rparr>,
      \<lparr>target = 10, heldValue = \<lparr>partialKeyRef = 12, partialKeyPos = ''3/3'', unregisterToken = 4\<rparr>, token = 4\<rparr>,
      \<lparr>target = 11, heldValue = \<lparr>partialKeyRef = 12, partialKeyPos = ''3/3'', unregisterToken = 4\<rparr>, token = 4\<rparr>] \<and>
   lookupCandidates afterFirstCallback 10 ''1/3'' = [] \<and>
   lookupCandidates afterFirstCallback 11 ''2/3'' = [0]"
  by (simp add: threeKeys_state afterFirstCallback_state threeKeys_watches)

section \<open>Lookups of key arrays that were never set\<close>

text \<open>
  C1 at a concrete input. On a new map, \<open>set([k10, k11], 1)\<close>. The key array \<open>[k10, k13]\<close>
  has no binding: \<open>get([k10, k13])\<close> is \<open>undefined\<close>. After \<open>set([k12, k13], 2)\<close>, a
  different key array, \<open>get([k10, k13])\<close> returns 1, the value of \<open>[k10, k11]\<close>, where C1
  says it returns not-found.
\<close>

theorem get_returns_value_of_other_binding:
  "fst (get oneBinding [10, 13]) = Inr Undefined \<and>
   fst (get (snd (set_cwm oneBinding [12, 13] (Val 2))) [10, 13]) = Inr (Val 1)"
  by (simp add: run)

text \<open>
  C2 at the same input. The candidate sets fetched for \<open>[k10, k13]\<close> are \<open>{0}\<close> and \<open>{4}\<close>;
  the pivot is the first. \<open>getCompositeKey\<close> returns the pivot's handle 0, which is not in the
  other fetched set; resolution as C2 words it tests that membership and finds no handle.
\<close>

theorem getCompositeKey_skips_membership_test:
  "getCompositeKey twoBindings [10, 13] = Inr (Some 0) \<and>
   resolveSpec twoBindings [10, 13] = None"
  by (simp add: run resolveSpec_def candidateSets_def lookupCandidates_def)

text \<open>
  C7 at the same input. \<open>[k10, k13]\<close> was never set, yet \<open>delete([k10, k13])\<close> returns
  \<open>true\<close>, and what it removed is the value of \<open>[k10, k11]\<close>, which \<open>get\<close> returned before
  the call and no longer returns after it.
\<close>

theorem delete_removes_other_binding:
  "fst (get twoBindings [10, 11]) = Inr (Val 1) \<and>
   fst (delete twoBindings [10, 13]) = Inr True \<and>
   fst (get (snd (delete twoBindings [10, 13])) [10, 11]) = Inr Undefined"
  by (simp add: run)

section \<open>\<open>has\<close> and \<open>get\<close>\<close>

text \<open>
  C6, as the code has it. For every non-empty key array and every state of the map in which
  the value stored for the composite key the array resolves to, if there is one, is not
  \<open>undefined\<close>: \<open>has\<close> returns \<open>true\<close> if and only if \<open>get\<close> returns something other than
  \<open>undefined\<close>.
\<close>

theorem has_iff_get_defined:
  assumes "partialKeys \<noteq> []"
    and "\<forall>ck. getCompositeKey s partialKeys = Inr (Some ck) \<longrightarrow> resultMap s ck \<noteq> Some Undefined"
  shows "fst (has s partialKeys) = Inr (fst (get s partialKeys) \<noteq> Inr Undefined)"
proof (cases "fewest (candidateSets s partialKeys)")
  case Nil
  with assms(1) show ?thesis
    by (simp add: has_def get_def assertKeysValid_def getCompositeKey_pivot)
next
  case (Cons ck tl)
  with assms(1) have g: "getCompositeKey s partialKeys = Inr (Some ck)"
    by (simp add: getCompositeKey_pivot)
  with assms(2) have "resultMap s ck \<noteq> Some Undefined" by simp
  with assms(1) g show ?thesis
    by (auto simp add: has_def get_def assertKeysValid_def split: option.splits)
qed

theorem has_iff_get_defined_witness:
  "[10, 11] \<noteq> ([] :: PartialKey list) \<and>
   getCompositeKey oneBinding [10, 11] = Inr (Some 0) \<and>
   resultMap oneBinding 0 = Some (Val 1) \<and>
   fst (has oneBinding [10, 11]) = Inr (fst (get oneBinding [10, 11]) \<noteq> Inr Undefined)"
proof -
  have ne: "[10, 11] \<noteq> ([] :: PartialKey list)" by simp
  have g: "getCompositeKey oneBinding [10, 11] = Inr (Some 0)" by (simp add: run)
  have r: "resultMap oneBinding 0 = Some (Val 1)" by (simp add: run)
  have "\<forall>ck. getCompositeKey oneBinding [10, 11] = Inr (Some ck) \<longrightarrow>
          resultMap oneBinding ck \<noteq> Some Undefined"
    by (simp add: g r)
  from has_iff_get_defined [OF ne this] ne g r show ?thesis by blast
qed

text \<open>
  C6 as stated does not hold: after \<open>set([k10], undefined)\<close> on a new map, \<open>has([k10])\<close> is
  \<open>true\<close> and \<open>get([k10])\<close> is \<open>undefined\<close>, the not-found marker.
\<close>

theorem has_true_get_undefined:
  "fst (has (snd (set_cwm (newCompositeWeakMap :: nat CompositeWeakMap) [10] Undefined)) [10]) = Inr True \<and>
   fst (get (snd (set_cwm (newCompositeWeakMap :: nat CompositeWeakMap) [10] Undefined)) [10]) = Inr Undefined"
  by (simp add: run)

section \<open>Key arrays that repeat one object\<close>

text \<open>
  C10. For every object \<open>a\<close>, value \<open>v\<close> and state of the map, \<open>set([a, a], v)\<close> returns
  normally, and then \<open>get([a, a])\<close> returns \<open>v\<close> and \<open>has([a, a])\<close> returns \<open>true\<close>. For
  every non-empty key array whose elements are all the object \<open>a\<close>, \<open>set\<close> returns normally
  and the registry it creates has no registration at all, every other registry being left as
  it was.
\<close>

theorem same_object_keys:
  assumes "partialKeys \<noteq> []" and "\<forall>k\<in>set partialKeys. k = a"
  shows "fst (set_cwm s [a, a] v) = Inr () \<and>
         fst (get (snd (set_cwm s [a, a] v)) [a, a]) = Inr v \<and>
         fst (has (snd (set_cwm s [a, a] v)) [a, a]) = Inr True \<and>
         fst (set_cwm s partialKeys v) = Inr () \<and>
         heap (snd (set_cwm s partialKeys v)) =
           (heap s)(setRegistry s partialKeys \<mapsto>
              \<lparr>closedCompositeKey = setKey s partialKeys, registrations = []\<rparr>)"
proof -
  have ne: "[a, a] \<noteq> []" by simp
  from set_cwm_resolves [OF ne, of s v] obtain ck where
    ck: "getCompositeKey (snd (set_cwm s [a, a] v)) [a, a] = Inr (Some ck)"
        "resultMap (snd (set_cwm s [a, a] v)) ck = Some v" by blast
  have 1: "fst (set_cwm s [a, a] v) = Inr ()" by (simp add: set_cwm_eq [OF ne])
  from ck have 2: "fst (get (snd (set_cwm s [a, a] v)) [a, a]) = Inr v"
    by (simp add: get_def assertKeysValid_def)
  from ck have 3: "fst (has (snd (set_cwm s [a, a] v)) [a, a]) = Inr True"
    by (simp add: has_def assertKeysValid_def)
  have 4: "fst (set_cwm s partialKeys v) = Inr ()" by (simp add: set_cwm_eq [OF assms(1)])
  have 5: "heap (snd (set_cwm s partialKeys v)) =
           (heap s)(setRegistry s partialKeys \<mapsto>
              \<lparr>closedCompositeKey = setKey s partialKeys, registrations = []\<rparr>)"
    by (simp add: set_cwm_fields [OF assms(1)] expectedWatches_same_key [OF assms(2)])
  from 1 2 3 4 5 show ?thesis by blast
qed

theorem same_object_keys_witness:
  "[10, 10, 10] \<noteq> ([] :: PartialKey list) \<and>
   fst (set_cwm twoBindings [10, 10] (Val 7)) = Inr () \<and>
   fst (get (snd (set_cwm twoBindings [10, 10] (Val 7))) [10, 10]) = Inr (Val 7) \<and>
   fst (has (snd (set_cwm twoBindings [10, 10] (Val 7))) [10, 10]) = Inr True \<and>
   fst (set_cwm twoBindings [10, 10, 10] (Val 7)) = Inr () \<and>
   heap (snd (set_cwm twoBindings [10, 10, 10] (Val 7))) =
     (heap twoBindings)(setRegistry twoBindings [10, 10, 10] \<mapsto>
        \<lparr>closedCompositeKey = setKey twoBindings [10, 10, 10], registrations = []\<rparr>)"
proof -
  have ne: "[10, 10, 10] \<noteq> ([] :: PartialKey list)" by simp
  have same: "\<forall>k\<in>set [10, 10, 10 :: PartialKey]. k = 10" by simp
  note t = same_object_keys [OF ne same, of twoBindings "Val 7"]
  show ?thesis by (intro conjI ne) (simp_all only: t)
qed

end
